theory Spec2Isabelle
  imports Main "HOL-Library.Word" "HOL-Library.Sublist" "HOL-Library.Code_Target_Nat"
begin

section \<open>Machine types used by \<open>http_client.h\<close>\<close>

text \<open>
  A member \<open>_name\<close> of a class of the source is the field \<open>m_name\<close> of its record.
  \<open>uint8_t\<close> is an 8-bit word and \<open>size_t\<close> a 64-bit word (LP64 target); unsigned
  arithmetic wraps. A value of \<open>int64_t\<close> is an integer in the range of the type;
  the subtraction of two time points is computed in \<open>int64_t\<close> and wraps around as
  the compiled code does (\<open>int64_wrap\<close>), and the one place where such a value is
  converted to an unsigned type writes the conversion out.
\<close>

type_synonym uint8_t = "8 word"
type_synonym size_t = "64 word"

text \<open>The two's complement value of an integer in 64 bits.\<close>

definition int64_wrap :: "int \<Rightarrow> int" where
  "int64_wrap x = (x + 2 ^ 63) mod 2 ^ 64 - 2 ^ 63"

text \<open>The ways an operation can end without its normal result.\<close>

datatype fault =
    Length_error        \<comment> \<open>\<open>std::length_error\<close>: a size above \<open>max_size()\<close> was requested\<close>
  | Out_of_bounds       \<comment> \<open>\<open>_data[0]\<close> evaluated on an empty vector (undefined behaviour)\<close>
  | Division_by_zero    \<comment> \<open>integer division by zero (undefined behaviour)\<close>
  | Invariant_violation \<comment> \<open>a broken contract between the bridge and its collaborators\<close>
  | Rejected            \<comment> \<open>a submission after shutdown\<close>
  | Deadlock            \<comment> \<open>spinning for ever on a lock that is never released\<close>

text \<open>
  \<open>std::vector<uint8_t>::max_size()\<close>: \<open>PTRDIFF_MAX\<close> in libstdc++ and libc++ on a
  64-bit target. Every vector holds at most that many elements.
\<close>

definition vector_max_size :: nat where
  "vector_max_size = 2 ^ 63 - 1"

section \<open>\<open>http_client::buffer\<close>\<close>

record buffer =
  m_data :: "uint8_t list"

definition wf_buffer :: "buffer \<Rightarrow> bool" where
  "wf_buffer b = (length (m_data b) \<le> vector_max_size)"

text \<open>\<open>buffer() { _data.reserve(32*1024); }\<close>: no element, capacity is not observable.\<close>

definition buffer_ctor :: buffer where
  "buffer_ctor = \<lparr> m_data = [] \<rparr>"

text \<open>
  \<open>void reserve(size_t sz) { _data.reserve(sz); }\<close>: the elements stay as they are;
  a request above \<open>max_size()\<close> throws.
\<close>

definition buffer_reserve :: "buffer \<Rightarrow> size_t \<Rightarrow> fault + buffer" where
  "buffer_reserve b sz = (if unat sz > vector_max_size then Inl Length_error else Inr b)"

text \<open>
  \<open>void append(const uint8_t* p, size_t sz) { _data.insert(_data.end(), p, p+sz); }\<close>:
  the range \<open>[p, p+sz)\<close> is the list \<open>ps\<close>.
\<close>

definition buffer_append :: "buffer \<Rightarrow> uint8_t list \<Rightarrow> fault + buffer" where
  "buffer_append b ps =
     (if length (m_data b) + length ps > vector_max_size then Inl Length_error
      else Inr (b\<lparr> m_data := m_data b @ ps \<rparr>))"

text \<open>\<open>void append(uint8_t s) { _data.push_back(s); }\<close>\<close>

definition buffer_append1 :: "buffer \<Rightarrow> uint8_t \<Rightarrow> fault + buffer" where
  "buffer_append1 b s =
     (if length (m_data b) + 1 > vector_max_size then Inl Length_error
      else Inr (b\<lparr> m_data := m_data b @ [s] \<rparr>))"

text \<open>\<open>size_t size() const { return _data.size(); }\<close>\<close>

definition buffer_size :: "buffer \<Rightarrow> size_t" where
  "buffer_size b = of_nat (length (m_data b))"

text \<open>
  What a \<open>const char*\<close> returned by the class designates: the string literal \<open>""\<close>
  (or another literal), or the element of the vector's storage at an index.
\<close>

datatype char_ptr =
    String_literal string
  | Vector_storage nat

text \<open>
  \<open>const uint8_t* data() const { return &_data[0]; }\<close>: \<open>_data[0]\<close> on an empty
  vector is out of range.
\<close>

definition buffer_data :: "buffer \<Rightarrow> fault + char_ptr" where
  "buffer_data b = (if m_data b = [] then Inl Out_of_bounds else Inr (Vector_storage 0))"

text \<open>
  \<open>std::vector::resize(n)\<close>: throws above \<open>max_size()\<close>, truncates to the first \<open>n\<close>
  elements, or pads with value-initialised (zero) bytes.
\<close>

definition vector_resize :: "uint8_t list \<Rightarrow> size_t \<Rightarrow> fault + uint8_t list" where
  "vector_resize xs n =
     (if unat n > vector_max_size then Inl Length_error
      else Inr (take (unat n) xs @ replicate (unat n - length xs) 0))"

text \<open>
  \<open>void pop_back() { _data.resize(_data.size() - 1); }\<close>: the subtraction is in
  \<open>size_t\<close> and wraps.
\<close>

definition buffer_pop_back :: "buffer \<Rightarrow> fault + buffer" where
  "buffer_pop_back b =
     (case vector_resize (m_data b) (of_nat (length (m_data b)) - 1) of
        Inl e \<Rightarrow> Inl e
      | Inr xs \<Rightarrow> Inr (b\<lparr> m_data := xs \<rparr>))"

text \<open>
  An operation keeps what the buffer held when its result starts with the old content
  and is at least as large. An operation that throws leaves the buffer as it was.
\<close>

definition preserves_content :: "buffer \<Rightarrow> fault + buffer \<Rightarrow> bool" where
  "preserves_content b r =
     (case r of
        Inl e \<Rightarrow> True
      | Inr b' \<Rightarrow> prefix (m_data b) (m_data b') \<and> buffer_size b \<le> buffer_size b')"

section \<open>\<open>http_client::call_context\<close>\<close>

text \<open>
  The declarations of \<open>csi_http_common/csi_http.h\<close> are not part of the sources:
  \<open>csi::http::method_t\<close> and \<open>csi::http::status_type\<close> are enumerations, read
  through their integer values (the comparisons of \<open>ok()\<close> promote the status to
  \<open>int\<close>), and \<open>csi::http::header_t\<close> is a key/value pair.

  \<open>std::chrono::steady_clock::time_point\<close> counts nanoseconds since the clock's epoch
  (the period of \<open>steady_clock\<close> in libstdc++, libc++ and MSVC); a default-constructed
  time point is the epoch, \<open>0\<close>. \<open>std::chrono::milliseconds\<close> counts milliseconds.
\<close>

type_synonym method_t = int
type_synonym status_type = int
type_synonym header_t = "string \<times> string"
type_synonym time_point = int
type_synonym milliseconds_t = int

text \<open>
  A \<open>CURL*\<close> easy handle is an opaque identifier; \<open>NULL\<close> is \<open>None\<close>. The
  continuation \<open>_callback\<close> is an opaque identifier as well (an empty
  \<open>boost::function\<close> is \<open>None\<close>). \<open>_curl_shared\<close> is a shared pointer that is
  either empty or owns the context itself: a flag.
\<close>

type_synonym native_handle = nat
type_synonym callback = nat

record call_context =
  m_method :: method_t
  m_uri :: string
  m_tx_headers :: "string list"
  m_rx_headers :: "header_t list"
  m_start_ts :: time_point
  m_end_ts :: time_point
  m_timeoutX :: milliseconds_t
  m_callback :: "callback option"
  m_tx_stream :: string
  m_rx_buffer :: buffer
  m_http_result :: status_type
  m_transport_ok :: bool
  m_curl_easy :: "native_handle option"
  m_curl_headerlist :: "string list option"
  m_curl_done :: bool
  m_curl_shared :: bool
  m_curl_verbose :: bool

text \<open>
  The constructor (lines 49-64). Its initialiser list leaves \<open>_transport_ok\<close> out, so
  the flag starts with an indeterminate value, the parameter \<open>indeterminate\<close>. The
  constant \<open>csi::http::undefined\<close> is declared in the missing header and is the
  parameter \<open>undefined_status\<close>; \<open>easy\<close> is what \<open>curl_easy_init()\<close> returns.
  The members without an initialiser are default-constructed: empty containers, an
  empty continuation, an empty self-reference, and both time points at the epoch.
  This is the object the constructor builds; what the constructor does to the static
  members \<open>s_spinlock\<close> and \<open>s_context_count\<close> is \<open>call_context_ctor_statics\<close>,
  below, and \<open>create_http_request\<close> runs both.
\<close>

definition call_context_ctor ::
  "status_type \<Rightarrow> bool \<Rightarrow> native_handle option \<Rightarrow>
   method_t \<Rightarrow> string \<Rightarrow> string list \<Rightarrow> milliseconds_t \<Rightarrow> bool \<Rightarrow> call_context" where
  "call_context_ctor undefined_status indeterminate easy method uri headers timeout verbose =
     \<lparr> m_method = method,
       m_uri = uri,
       m_tx_headers = headers,
       m_rx_headers = [],
       m_start_ts = 0,
       m_end_ts = 0,
       m_timeoutX = timeout,
       m_callback = None,
       m_tx_stream = [],
       m_rx_buffer = buffer_ctor,
       m_http_result = undefined_status,
       m_transport_ok = indeterminate,
       m_curl_easy = easy,
       m_curl_headerlist = None,
       m_curl_done = False,
       m_curl_shared = False,
       m_curl_verbose = verbose \<rparr>"

text \<open>\<open>curl_start(h) { _curl_shared = h; }\<close> and \<open>curl_stop() { _curl_shared.reset(); }\<close>\<close>

definition curl_start :: "call_context \<Rightarrow> call_context" where
  "curl_start c = c\<lparr> m_curl_shared := True \<rparr>"

definition curl_stop :: "call_context \<Rightarrow> call_context" where
  "curl_stop c = c\<lparr> m_curl_shared := False \<rparr>"

text \<open>
  Integer division of C++ truncates towards zero; \<open>duration_cast\<close> from nanoseconds
  to a coarser unit is such a division.
\<close>

definition trunc_div :: "int \<Rightarrow> int \<Rightarrow> int" where
  "trunc_div a b = sgn a * sgn b * (\<bar>a\<bar> div \<bar>b\<bar>)"

text \<open>
  \<open>int64_t milliseconds() const\<close> and \<open>microseconds() const\<close>:
  \<open>duration_cast<...>(_end_ts - _start_ts).count()\<close>. The difference of the two
  time points is an \<open>int64_t\<close> count of nanoseconds.
\<close>

definition milliseconds :: "call_context \<Rightarrow> int" where
  "milliseconds c = trunc_div (int64_wrap (m_end_ts c - m_start_ts c)) 1000000"

definition microseconds :: "call_context \<Rightarrow> int" where
  "microseconds c = trunc_div (int64_wrap (m_end_ts c - m_start_ts c)) 1000"

text \<open>\<open>rx_content()\<close>: \<open>_rx_buffer.size() ? (const char*) _rx_buffer.data() : ""\<close>\<close>

definition rx_content :: "call_context \<Rightarrow> fault + char_ptr" where
  "rx_content c =
     (if buffer_size (m_rx_buffer c) \<noteq> 0 then buffer_data (m_rx_buffer c)
      else Inr (String_literal []))"

definition tx_content_length :: "call_context \<Rightarrow> size_t" where
  "tx_content_length c = of_nat (length (m_tx_stream c))"

definition rx_content_length :: "call_context \<Rightarrow> size_t" where
  "rx_content_length c = buffer_size (m_rx_buffer c)"

text \<open>
  \<open>int rx_kb_per_sec() const { auto sz = rx_content_length(); int64_t ms = milliseconds();
  return (int) (ms == 0 ? 0 : sz / ms); }\<close>

  \<open>sz\<close> is a \<open>size_t\<close>, so in \<open>sz / ms\<close> the usual arithmetic conversions turn
  \<open>ms\<close> into a \<open>size_t\<close> (modulo \<open>2 ^ 64\<close>) and the division is unsigned; the
  conditional expression has type \<open>size_t\<close>; the cast to \<open>int\<close> (\<open>to_int\<close>) keeps
  the low 32 bits, read as two's complement. A zero divisor is a fault of its own, so
  that "never divides by zero" is a statement about the result.
\<close>

definition to_int :: "size_t \<Rightarrow> int" where
  "to_int w = sint (ucast w :: 32 word)"

definition rx_kb_per_sec :: "call_context \<Rightarrow> fault + int" where
  "rx_kb_per_sec c =
     (let sz = rx_content_length c;
          ms = milliseconds c
      in if ms = 0 then Inr (to_int 0)
         else if (word_of_int ms :: size_t) = 0 then Inl Division_by_zero
         else Inr (to_int (sz div (word_of_int ms :: size_t))))"

definition http_result :: "call_context \<Rightarrow> status_type" where
  "http_result c = m_http_result c"

definition transport_result :: "call_context \<Rightarrow> bool" where
  "transport_result c = m_transport_ok c"

text \<open>\<open>bool ok() const { return _transport_ok && (_http_result >= 200) && (_http_result < 300); }\<close>\<close>

definition ok :: "call_context \<Rightarrow> bool" where
  "ok c = (m_transport_ok c \<and> m_http_result c \<ge> 200 \<and> m_http_result c < 300)"

text \<open>
  The values the members can hold: the vector's size bound, and time points that are
  \<open>int64_t\<close> tick counts.
\<close>

definition int64_range :: "int \<Rightarrow> bool" where
  "int64_range x = (- (2 ^ 63) \<le> x \<and> x < 2 ^ 63)"

definition wf_context :: "call_context \<Rightarrow> bool" where
  "wf_context c =
     (wf_buffer (m_rx_buffer c) \<and> int64_range (m_start_ts c) \<and> int64_range (m_end_ts c))"

section \<open>The engine \<open>http_client\<close>\<close>

text \<open>
  The header declares the engine's operations (\<open>perform_async\<close>, \<open>_perform\<close>,
  \<open>check_completed\<close>, \<open>close\<close>, the transport callbacks); their bodies are not
  part of the sources. They are modelled from the specification, each under a comment
  that says so. The state holds what these operations read and write:
  \<^item> the \<open>call_context\<close> objects, by address (a \<open>std::shared_ptr\<close> designates an
    object, it is not a copy of it); an easy handle is created with its context and
    belongs to it alone, so a native handle and the address of its context name each
    other and one identifier stands for both;
  \<^item> the transport engine behind \<open>_multi\<close>: the handles attached to it and its
    sequence of finished handles with their outcome;
  \<^item> \<open>_socket_map\<close>, \<open>_timer\<close> and \<open>_keepalive_timer\<close>;
  \<^item> a trace of what the engine did to its collaborators, in order;
  \<^item> the static members of \<open>call_context\<close>, \<open>s_spinlock\<close> and
    \<open>s_context_count\<close>, with a trace of the lock operations and of the accesses to
    the counter, in order.
\<close>

type_synonym ctx_ref = nat
type_synonym curl_socket_t = int
type_synonym outcome = "bool \<times> status_type"

datatype interest = Interest_none | Interest_read | Interest_write | Interest_both

datatype event =
    Attach ctx_ref          \<comment> \<open>the handle was added to the transport engine\<close>
  | Detach ctx_ref          \<comment> \<open>the handle was removed from the transport engine\<close>
  | Continuation ctx_ref    \<comment> \<open>the continuation of the context was invoked\<close>
  | Cancel_timer
  | Cancel_keepalive_timer
  | Close_socket curl_socket_t

datatype shutdown_policy = Let_drain | Force_fail

datatype lock_event =
    Lock_acquire            \<comment> \<open>a \<open>scoped_lock\<close> on \<open>s_spinlock\<close> was constructed\<close>
  | Lock_release            \<comment> \<open>it was destroyed\<close>
  | Counter_access          \<comment> \<open>\<open>s_context_count\<close> was read or written\<close>

record http_client =
  s_spinlock :: bool
  s_context_count :: size_t
  m_lock_trace :: "lock_event list"
  m_heap :: "ctx_ref \<rightharpoonup> call_context"
  m_next_ref :: ctx_ref
  m_multi :: "ctx_ref list"
  m_finished :: "(ctx_ref \<times> outcome) list"
  m_socket_map :: "(curl_socket_t \<times> interest) list"
  m_timer :: "milliseconds_t option"
  m_keepalive_timer :: bool
  m_closed :: bool
  m_trace :: "event list"

text \<open>
  Modelled from the spec: the constructor \<open>http_client(io_service)\<close>, whose body is
  missing, and the definitions of the static members of \<open>call_context\<close>, which are
  in the missing source file. No context, nothing attached, an empty registry, no pump
  timer pending, the fixed-period keep-alive timer running; the lock free and the
  counter zero.
\<close>

definition http_client_ctor :: http_client where
  "http_client_ctor =
     \<lparr> s_spinlock = False, s_context_count = 0, m_lock_trace = [],
       m_heap = Map.empty, m_next_ref = 0, m_multi = [], m_finished = [],
       m_socket_map = [], m_timer = None, m_keepalive_timer = True,
       m_closed = False, m_trace = [] \<rparr>"

text \<open>
  Modelled from the spec: \<open>csi::spinlock::scoped_lock\<close>, declared in the missing
  \<open>csi_http_common/spinlock.h\<close>, a mutual-exclusion primitive that spin-waits. Its
  constructor takes the lock, and waits for ever when nobody releases it; its
  destructor releases the lock.
\<close>

definition scoped_lock_ctor :: "http_client \<Rightarrow> fault + http_client" where
  "scoped_lock_ctor s =
     (if s_spinlock s then Inl Deadlock
      else Inr (s\<lparr> s_spinlock := True, m_lock_trace := m_lock_trace s @ [Lock_acquire] \<rparr>))"

definition scoped_lock_dtor :: "http_client \<Rightarrow> http_client" where
  "scoped_lock_dtor s =
     s\<lparr> s_spinlock := False, m_lock_trace := m_lock_trace s @ [Lock_release] \<rparr>"

text \<open>
  The constructor of \<open>call_context\<close> on the static members (lines 59-62):
  \<open>{ csi::spinlock::scoped_lock xx(s_spinlock); s_context_count++; }\<close>
\<close>

definition call_context_ctor_statics :: "http_client \<Rightarrow> fault + http_client" where
  "call_context_ctor_statics s =
     (case scoped_lock_ctor s of
        Inl e \<Rightarrow> Inl e
      | Inr s1 \<Rightarrow>
          Inr (scoped_lock_dtor
                (s1\<lparr> s_context_count := s_context_count s1 + 1,
                     m_lock_trace := m_lock_trace s1 @ [Counter_access] \<rparr>)))"

text \<open>
  \<open>create_http_request\<close> (lines 178-181): \<open>new call_context(...)\<close>. The constructor
  counts the context and builds it at a fresh address; \<open>curl_easy_init()\<close> gives it
  its handle.
\<close>

definition create_http_request ::
  "status_type \<Rightarrow> bool \<Rightarrow> method_t \<Rightarrow> string \<Rightarrow> string list \<Rightarrow> milliseconds_t \<Rightarrow> bool \<Rightarrow>
   http_client \<Rightarrow> fault + http_client" where
  "create_http_request undefined_status indeterminate method uri headers timeout verbose s =
     (case call_context_ctor_statics s of
        Inl e \<Rightarrow> Inl e
      | Inr s1 \<Rightarrow>
          Inr (s1\<lparr> m_heap := (m_heap s1)(m_next_ref s1 \<mapsto>
                      call_context_ctor undefined_status indeterminate (Some (m_next_ref s1))
                        method uri headers timeout verbose),
                   m_next_ref := Suc (m_next_ref s1) \<rparr>))"

text \<open>
  The destructor of \<open>call_context\<close> (lines 66-76), run when the last
  \<open>shared_ptr\<close> to the context at address \<open>r\<close> goes away:
  \<open>{ csi::spinlock::scoped_lock xx(s_spinlock); s_context_count--; }\<close>, then the easy
  handle and the header list are freed with the object. A context that holds a
  reference to itself (\<open>_curl_shared\<close>) has an owner left, so its destructor cannot
  run; neither can the destructor of an object that does not exist.
\<close>

definition call_context_dtor :: "ctx_ref \<Rightarrow> http_client \<Rightarrow> fault + http_client" where
  "call_context_dtor r s =
     (case m_heap s r of
        None \<Rightarrow> Inl Invariant_violation
      | Some c \<Rightarrow>
          if m_curl_shared c then Inl Invariant_violation
          else case scoped_lock_ctor s of
            Inl e \<Rightarrow> Inl e
          | Inr s1 \<Rightarrow>
              Inr ((scoped_lock_dtor
                     (s1\<lparr> s_context_count := s_context_count s1 - 1,
                          m_lock_trace := m_lock_trace s1 @ [Counter_access] \<rparr>))
                   \<lparr> m_heap := (m_heap s)(r := None) \<rparr>))"

text \<open>
  \<open>static size_t connection_count() { csi::spinlock::scoped_lock xx(s_spinlock);
  return s_context_count; }\<close> (line 79): the value read, and the state after it.
\<close>

definition connection_count :: "http_client \<Rightarrow> fault + size_t \<times> http_client" where
  "connection_count s =
     (case scoped_lock_ctor s of
        Inl e \<Rightarrow> Inl e
      | Inr s1 \<Rightarrow>
          Inr (s_context_count s1,
               scoped_lock_dtor (s1\<lparr> m_lock_trace := m_lock_trace s1 @ [Counter_access] \<rparr>)))"

text \<open>
  A trace of lock events keeps the discipline when every \<open>Lock_acquire\<close> finds the
  lock free, every \<open>Lock_release\<close> and every \<open>Counter_access\<close> find it held.
  \<open>lock_run held tr\<close> is the state of the lock after \<open>tr\<close>, or \<open>None\<close> when an
  event of \<open>tr\<close> breaks the discipline.
\<close>

fun lock_run :: "bool \<Rightarrow> lock_event list \<Rightarrow> bool option" where
  "lock_run held [] = Some held"
| "lock_run held (Lock_acquire # tr) = (if held then None else lock_run True tr)"
| "lock_run held (Lock_release # tr) = (if held then lock_run False tr else None)"
| "lock_run held (Counter_access # tr) = (if held then lock_run held tr else None)"

text \<open>
  Modelled from the spec: what attaching does to the context, in the missing body of
  \<open>_perform\<close>. The attach timestamp is recorded, the continuation is kept, and the
  context takes a reference to itself (\<open>curl_start\<close>).
\<close>

definition attach_context :: "time_point \<Rightarrow> callback \<Rightarrow> call_context \<Rightarrow> call_context" where
  "attach_context now cb c = curl_start (c\<lparr> m_start_ts := now, m_callback := Some cb \<rparr>)"

text \<open>
  Modelled from the spec: what retirement does to the context, in the missing body of
  \<open>check_completed\<close> (steps 3, 4 and 6 of the drain algorithm). The end timestamp
  is recorded, the transport success flag and the status code are set from the
  outcome, and the self-reference is released (\<open>curl_stop\<close>).
\<close>

definition retire_context :: "time_point \<Rightarrow> outcome \<Rightarrow> call_context \<Rightarrow> call_context" where
  "retire_context now oc c =
     curl_stop (c\<lparr> m_end_ts := now, m_transport_ok := fst oc, m_http_result := snd oc,
                   m_curl_done := True \<rparr>)"

text \<open>
  Modelled from the spec: \<open>perform_async\<close> with \<open>_perform\<close>, whose bodies are missing.
  A submission after shutdown is refused. Attaching a context that is attached already,
  or that has been retired, breaks the contract and is fatal. Otherwise the context is
  attached and its handle is added to the transport engine.
\<close>

definition perform_async ::
  "time_point \<Rightarrow> ctx_ref \<Rightarrow> callback \<Rightarrow> http_client \<Rightarrow> fault + http_client" where
  "perform_async now r cb s =
     (if m_closed s then Inl Rejected
      else case m_heap s r of
        None \<Rightarrow> Inl Invariant_violation
      | Some c \<Rightarrow>
          if m_curl_shared c \<or> m_curl_done c then Inl Invariant_violation
          else Inr (s\<lparr> m_heap := (m_heap s)(r \<mapsto> attach_context now cb c),
                       m_multi := r # m_multi s,
                       m_trace := m_trace s @ [Attach r] \<rparr>))"

text \<open>
  Modelled from the spec: the step of the transport engine, which is not part of the
  sources. The transport engine, not the bridge, decides when an exchange is finished:
  while it handles a socket or timer event it appends an attached handle, once, to its
  sequence of finished handles (the contract of \<open>next_finished\<close>).
\<close>

definition transport_done :: "ctx_ref \<Rightarrow> outcome \<Rightarrow> http_client \<Rightarrow> http_client" where
  "transport_done r oc s =
     (if r \<in> set (m_multi s) \<and> r \<notin> fst ` set (m_finished s)
      then s\<lparr> m_finished := m_finished s @ [(r, oc)] \<rparr> else s)"

text \<open>Modelled from the spec: \<open>next_finished() -> optional<(native_handle, outcome_code)>\<close>.\<close>

definition next_finished :: "http_client \<Rightarrow> ((ctx_ref \<times> outcome) \<times> http_client) option" where
  "next_finished s =
     (case m_finished s of [] \<Rightarrow> None | x # xs \<Rightarrow> Some (x, s\<lparr> m_finished := xs \<rparr>))"

text \<open>
  Modelled from the spec: steps 2 to 6 of the drain algorithm for one finished handle.
  The handle is resolved to its context through the mapping made at attach time (an
  unknown or unattached handle is fatal), the outcome and the end timestamp are
  recorded, the handle is detached from the transport engine, the self-reference is
  released and the continuation is invoked.
\<close>

definition retire_handle ::
  "time_point \<Rightarrow> ctx_ref \<Rightarrow> outcome \<Rightarrow> http_client \<Rightarrow> fault + http_client" where
  "retire_handle now r oc s =
     (case m_heap s r of
        None \<Rightarrow> Inl Invariant_violation
      | Some c \<Rightarrow>
          if \<not> m_curl_shared c then Inl Invariant_violation
          else Inr (s\<lparr> m_heap := (m_heap s)(r \<mapsto> retire_context now oc c),
                       m_multi := removeAll r (m_multi s),
                       m_trace := m_trace s @ [Detach r, Continuation r] \<rparr>))"

text \<open>
  Modelled from the spec: \<open>check_completed\<close>, whose body is missing; steps 1 and 7
  of the drain algorithm. The loop asks for the next finished handle until there is
  none.
\<close>

function check_completed :: "time_point \<Rightarrow> http_client \<Rightarrow> fault + http_client" where
  "check_completed now s =
     (case next_finished s of
        None \<Rightarrow> Inr s
      | Some ((r, oc), s') \<Rightarrow>
          (case retire_handle now r oc s' of
             Inl e \<Rightarrow> Inl e
           | Inr s'' \<Rightarrow> check_completed now s''))"
  by pat_completeness auto
termination
  by (relation "measure (\<lambda>(now, s). length (m_finished s))")
     (auto simp: next_finished_def retire_handle_def split: list.splits option.splits if_splits)

declare check_completed.simps [simp del]

text \<open>
  Modelled from the spec: the socket-open request and the next-timer-delay request of
  the transport engine (\<open>opensocket_cb\<close>, \<open>multi_timer_cb\<close>), as far as the registry
  and the pump timer go. A new delay replaces the pending timer; a negative delay is
  the sentinel for "no timer needed".
\<close>

definition opensocket_cb :: "curl_socket_t \<Rightarrow> http_client \<Rightarrow> http_client" where
  "opensocket_cb d s =
     (if d \<in> fst ` set (m_socket_map s) then s
      else s\<lparr> m_socket_map := m_socket_map s @ [(d, Interest_none)] \<rparr>)"

definition multi_timer_cb :: "milliseconds_t \<Rightarrow> http_client \<Rightarrow> http_client" where
  "multi_timer_cb timeout_ms s =
     s\<lparr> m_timer := (if timeout_ms < 0 then None else Some timeout_ms),
        m_trace := m_trace s @ (if m_timer s = None then [] else [Cancel_timer]) \<rparr>"

text \<open>
  Modelled from the spec: forcing the contexts in flight to fail at shutdown, each
  retired with a failed transport outcome.
\<close>

fun force_fail :: "time_point \<Rightarrow> ctx_ref list \<Rightarrow> http_client \<Rightarrow> fault + http_client" where
  "force_fail now [] s = Inr s"
| "force_fail now (r # rs) s =
     (case retire_handle now r (False, 0) s of
        Inl e \<Rightarrow> Inl e
      | Inr s' \<Rightarrow> force_fail now rs s')"

text \<open>
  Modelled from the spec: \<open>close\<close>, whose body is missing. It cancels the pending
  timers, closes the registered sockets and forbids further submissions. The spec
  leaves to the implementer whether the contexts in flight are left to drain or are
  failed at once; the policy is a parameter.
\<close>

definition close :: "shutdown_policy \<Rightarrow> time_point \<Rightarrow> http_client \<Rightarrow> fault + http_client" where
  "close policy now s =
     (let s1 = s\<lparr> m_trace := m_trace s
                    @ (if m_timer s = None then [] else [Cancel_timer])
                    @ (if m_keepalive_timer s then [Cancel_keepalive_timer] else [])
                    @ map (\<lambda>(d, i). Close_socket d) (m_socket_map s),
                  m_timer := None, m_keepalive_timer := False,
                  m_socket_map := [], m_closed := True \<rparr>
      in case policy of
           Let_drain \<Rightarrow> Inr s1
         | Force_fail \<Rightarrow> force_fail now (m_multi s1) (s1\<lparr> m_finished := [] \<rparr>))"

text \<open>What the callers, the reactor and the transport engine can do, and a run of it.\<close>

datatype op =
    Create status_type bool method_t string "string list" milliseconds_t bool
  | Destroy ctx_ref
  | Connection_count
  | Perform_async time_point ctx_ref callback
  | Transport_done ctx_ref outcome
  | Check_completed time_point
  | Open_socket curl_socket_t
  | Multi_timer milliseconds_t
  | Close shutdown_policy time_point

fun step :: "op \<Rightarrow> http_client \<Rightarrow> fault + http_client" where
  "step (Create u i m uri hs t v) s = create_http_request u i m uri hs t v s"
| "step (Destroy r) s = call_context_dtor r s"
| "step Connection_count s = map_sum id snd (connection_count s)"
| "step (Perform_async now r cb) s = perform_async now r cb s"
| "step (Transport_done r oc) s = Inr (transport_done r oc s)"
| "step (Check_completed now) s = check_completed now s"
| "step (Open_socket d) s = Inr (opensocket_cb d s)"
| "step (Multi_timer t) s = Inr (multi_timer_cb t s)"
| "step (Close p now) s = close p now s"

fun run :: "op list \<Rightarrow> http_client \<Rightarrow> fault + http_client" where
  "run [] s = Inr s"
| "run (x # xs) s = (case step x s of Inl e \<Rightarrow> Inl e | Inr s' \<Rightarrow> run xs s')"


text \<open>The events of a trace that concern one context.\<close>

definition events_of :: "ctx_ref \<Rightarrow> event list \<Rightarrow> event list" where
  "events_of r tr = filter (\<lambda>e. e = Attach r \<or> e = Detach r \<or> e = Continuation r) tr"

text \<open>
  What the trace holds for a context in each state of its lifecycle: nothing while it
  is unattached, its attachment while it is in flight, and attachment, detach and
  continuation once it is retired.
\<close>

definition lifecycle_events :: "ctx_ref \<Rightarrow> call_context \<Rightarrow> event list" where
  "lifecycle_events r c =
     (if m_curl_done c then [Attach r, Detach r, Continuation r]
      else if m_curl_shared c then [Attach r]
      else [])"

text \<open>
  The invariant of the engine: addresses from \<open>m_next_ref\<close> on are unused and have no
  event; no context is both attached and retired, and the trace agrees with its
  lifecycle; a context that was destroyed was never submitted or was retired; the
  handles in the transport engine are those of attached contexts, each once; the
  finished handles are attached ones, each once; the counter is the number of contexts,
  the lock is free and the lock trace keeps the discipline.
\<close>

definition inv_fresh :: "http_client \<Rightarrow> bool" where
  "inv_fresh s =
     (\<forall>r. m_next_ref s \<le> r \<longrightarrow> m_heap s r = None \<and> events_of r (m_trace s) = [])"

definition inv_life :: "http_client \<Rightarrow> bool" where
  "inv_life s =
     (\<forall>r. (m_heap s r = None \<longrightarrow>
             events_of r (m_trace s) = []
           \<or> events_of r (m_trace s) = [Attach r, Detach r, Continuation r])
        \<and> (\<forall>c. m_heap s r = Some c \<longrightarrow>
               \<not> (m_curl_shared c \<and> m_curl_done c)
             \<and> events_of r (m_trace s) = lifecycle_events r c))"

definition inv_multi :: "http_client \<Rightarrow> bool" where
  "inv_multi s =
     ((\<forall>r. r \<in> set (m_multi s) \<longleftrightarrow> (\<exists>c. m_heap s r = Some c \<and> m_curl_shared c))
      \<and> distinct (m_multi s))"

definition inv_finished :: "http_client \<Rightarrow> bool" where
  "inv_finished s =
     ((\<forall>r \<in> fst ` set (m_finished s). r \<in> set (m_multi s))
      \<and> distinct (map fst (m_finished s)))"

definition inv_statics :: "http_client \<Rightarrow> bool" where
  "inv_statics s =
     (s_context_count s = of_nat (card (dom (m_heap s)))
      \<and> \<not> s_spinlock s
      \<and> lock_run False (m_lock_trace s) = Some False)"

definition engine_inv :: "http_client \<Rightarrow> bool" where
  "engine_inv s =
     (inv_fresh s \<and> inv_life s \<and> inv_multi s \<and> inv_finished s \<and> inv_statics s)"

text \<open>
  Runs used to exercise the engine: two requests submitted and reported finished; and
  three contexts created, counted, one of them submitted and retired, and two destroyed.
\<close>

definition example_ops :: "op list" where
  "example_ops =
     [Create 0 False 1 ''http://host/a'' [] 5000 False,
      Create 0 False 1 ''http://host/b'' [] 200 False,
      Perform_async 1000000 0 7,
      Perform_async 2000000 (Suc 0) 8,
      Open_socket 5,
      Multi_timer 100,
      Transport_done 0 (True, 200),
      Transport_done (Suc 0) (False, 0)]"

definition example_lifetimes :: "op list" where
  "example_lifetimes =
     [Create 0 False 1 ''http://host/a'' [] 5000 False,
      Create 0 False 1 ''http://host/b'' [] 200 False,
      Connection_count,
      Perform_async 1000000 0 7,
      Create 0 False 1 ''http://host/c'' [] 200 False,
      Destroy (Suc 0),
      Transport_done 0 (True, 200),
      Check_completed 3000000,
      Destroy 0]"

section \<open>Properties of \<open>buffer\<close>\<close>

lemma unat_buffer_size: "wf_buffer b \<Longrightarrow> unat (buffer_size b) = length (m_data b)"
  unfolding wf_buffer_def buffer_size_def vector_max_size_def
  by (simp add: unat_of_nat)

lemma buffer_size_eq_0_iff: "wf_buffer b \<Longrightarrow> buffer_size b = 0 \<longleftrightarrow> m_data b = []"
  using unat_buffer_size[of b] by (auto simp: buffer_size_def)

lemma buffer_size_mono:
  assumes "wf_buffer b" "wf_buffer b'" "length (m_data b) \<le> length (m_data b')"
  shows "buffer_size b \<le> buffer_size b'"
  using assms by (simp add: word_le_nat_alt unat_buffer_size)

lemma pop_back_nonempty:
  assumes "wf_buffer b" "m_data b \<noteq> []"
  shows "buffer_pop_back b = Inr (b\<lparr> m_data := butlast (m_data b) \<rparr>)"
proof -
  let ?n = "length (m_data b)"
  have n: "0 < ?n" "?n \<le> 2 ^ 63 - 1"
    using assms by (auto simp: wf_buffer_def vector_max_size_def)
  have nz: "buffer_size b \<noteq> 0"
    using assms buffer_size_eq_0_iff by simp
  have u: "unat ((of_nat ?n :: size_t) - 1) = ?n - 1"
    using unat_minus_one[OF nz] unat_buffer_size[OF assms(1)] by (simp add: buffer_size_def)
  show ?thesis
    using n
    by (simp add: buffer_pop_back_def vector_resize_def u vector_max_size_def
        butlast_conv_take)
qed

lemma pop_back_empty: "m_data b = [] \<Longrightarrow> buffer_pop_back b = Inl Length_error"
  by (simp add: buffer_pop_back_def vector_resize_def vector_max_size_def
      unsigned_minus_1_eq_mask mask_eq_exp_minus_1)

text \<open>
  Claim C3, as stated: every operation of \<open>buffer\<close> keeps the content as a prefix and
  never makes the buffer smaller. \<open>pop_back\<close> on the one-byte buffer \<open>[7]\<close> returns
  the empty buffer: the content is no prefix of the result and the size went from 1 to 0.
\<close>

theorem buffer_append_only_counterexample:
  "\<not> preserves_content \<lparr> m_data = [7] \<rparr> (buffer_pop_back \<lparr> m_data = [7] \<rparr>)"
  by (simp add: preserves_content_def buffer_pop_back_def vector_resize_def
      vector_max_size_def buffer_size_def)

text \<open>
  Claim C3, amended: \<open>reserve\<close> and both \<open>append\<close> keep the content as a prefix and
  never make the buffer smaller; \<open>pop_back\<close> is the one operation that shrinks it, and
  on a buffer that is not empty it removes the last byte.
\<close>

theorem buffer_append_only_except_pop_back:
  assumes "wf_buffer b"
  shows "preserves_content b (buffer_reserve b sz)
       \<and> preserves_content b (buffer_append b ps)
       \<and> preserves_content b (buffer_append1 b s)
       \<and> (m_data b \<noteq> [] \<longrightarrow>
            buffer_pop_back b = Inr (b\<lparr> m_data := butlast (m_data b) \<rparr>))"
proof -
  have 1: "preserves_content b (buffer_reserve b sz)"
    by (simp add: preserves_content_def buffer_reserve_def)
  have 2: "preserves_content b (buffer_append b ps)"
    using assms
    by (auto simp: preserves_content_def buffer_append_def wf_buffer_def
        intro!: buffer_size_mono)
  have 3: "preserves_content b (buffer_append1 b s)"
    using assms
    by (auto simp: preserves_content_def buffer_append1_def wf_buffer_def
        intro!: buffer_size_mono)
  show ?thesis
    using 1 2 3 pop_back_nonempty[OF assms] by blast
qed

theorem buffer_append_only_except_pop_back_witness:
  "wf_buffer \<lparr> m_data = [1, 2] \<rparr>
   \<and> preserves_content \<lparr> m_data = [1, 2] \<rparr> (buffer_reserve \<lparr> m_data = [1, 2] \<rparr> 64)
   \<and> preserves_content \<lparr> m_data = [1, 2] \<rparr> (buffer_append \<lparr> m_data = [1, 2] \<rparr> [3, 4])
   \<and> preserves_content \<lparr> m_data = [1, 2] \<rparr> (buffer_append1 \<lparr> m_data = [1, 2] \<rparr> 5)
   \<and> buffer_pop_back \<lparr> m_data = [1, 2] \<rparr> = Inr \<lparr> m_data = [1] \<rparr>"
proof -
  have h: "wf_buffer \<lparr> m_data = [1, 2] \<rparr>"
    by (simp add: wf_buffer_def vector_max_size_def)
  show ?thesis
    using h buffer_append_only_except_pop_back[OF h, of 64 "[3, 4]" 5] by simp
qed

text \<open>
  Claim C10: on a buffer of size \<open>n \<ge> 1\<close>, \<open>pop_back\<close> leaves a buffer of size
  \<open>n - 1\<close> that holds the first \<open>n - 1\<close> bytes; on an empty buffer the size
  \<open>n - 1\<close> wraps around to \<open>2 ^ 64 - 1\<close> and the operation does not return a
  buffer (\<open>resize\<close> throws).
\<close>

theorem pop_back_requires_nonempty:
  assumes "wf_buffer b"
  shows "(1 \<le> unat (buffer_size b) \<longrightarrow>
            (\<exists>b'. buffer_pop_back b = Inr b'
                 \<and> unat (buffer_size b') = unat (buffer_size b) - 1
                 \<and> m_data b' = take (unat (buffer_size b) - 1) (m_data b)))
       \<and> (buffer_size b = 0 \<longrightarrow>
            unat (buffer_size b - 1) = 2 ^ 64 - 1 \<and> buffer_pop_back b = Inl Length_error)"
proof (intro conjI impI)
  assume "1 \<le> unat (buffer_size b)"
  then have ne: "m_data b \<noteq> []"
    using unat_buffer_size[OF assms] by auto
  let ?b' = "b\<lparr> m_data := butlast (m_data b) \<rparr>"
  have wf': "wf_buffer ?b'"
    using assms by (simp add: wf_buffer_def)
  have "unat (buffer_size ?b') = unat (buffer_size b) - 1"
    using unat_buffer_size[OF wf'] unat_buffer_size[OF assms] by simp
  moreover have "m_data ?b' = take (unat (buffer_size b) - 1) (m_data b)"
    using unat_buffer_size[OF assms] by (simp add: butlast_conv_take)
  ultimately show "\<exists>b'. buffer_pop_back b = Inr b'
                 \<and> unat (buffer_size b') = unat (buffer_size b) - 1
                 \<and> m_data b' = take (unat (buffer_size b) - 1) (m_data b)"
    using pop_back_nonempty[OF assms ne] by blast
next
  assume z: "buffer_size b = 0"
  then show "unat (buffer_size b - 1) = 2 ^ 64 - 1"
    by (simp add: unsigned_minus_1_eq_mask mask_eq_exp_minus_1)
  from z have "m_data b = []"
    using buffer_size_eq_0_iff[OF assms] by simp
  then show "buffer_pop_back b = Inl Length_error"
    by (rule pop_back_empty)
qed

theorem pop_back_requires_nonempty_witness:
  "wf_buffer \<lparr> m_data = [1, 2, 3] \<rparr>
   \<and> 1 \<le> unat (buffer_size \<lparr> m_data = [1, 2, 3] \<rparr>)
   \<and> (\<exists>b'. buffer_pop_back \<lparr> m_data = [1, 2, 3] \<rparr> = Inr b'
          \<and> unat (buffer_size b') = 2 \<and> m_data b' = [1, 2])
   \<and> wf_buffer \<lparr> m_data = [] \<rparr>
   \<and> buffer_size \<lparr> m_data = [] \<rparr> = 0
   \<and> buffer_pop_back \<lparr> m_data = [] \<rparr> = Inl Length_error"
proof -
  have h: "wf_buffer \<lparr> m_data = [1, 2, 3] \<rparr>" "wf_buffer \<lparr> m_data = [] \<rparr>"
    by (simp_all add: wf_buffer_def vector_max_size_def)
  have s: "unat (buffer_size \<lparr> m_data = [1, 2, 3] \<rparr>) = 3" "buffer_size \<lparr> m_data = [] \<rparr> = 0"
    by (simp_all add: buffer_size_def)
  show ?thesis
    using h s pop_back_requires_nonempty[OF h(1)] pop_back_requires_nonempty[OF h(2)]
    by simp
qed

section \<open>Properties of \<open>call_context\<close>\<close>

text \<open>
  Claim C1: \<open>ok()\<close> is true exactly when the transport success flag is set and the
  response status is at least 200 and below 300.
\<close>

theorem ok_iff_transport_ok_and_2xx:
  "ok c \<longleftrightarrow> transport_result c \<and> http_result c \<in> {200..<300}"
  by (auto simp: ok_def transport_result_def http_result_def)

text \<open>
  Claim C8: with an empty receive buffer \<open>rx_content()\<close> returns the literal \<open>""\<close>
  and does not evaluate \<open>data()\<close>; otherwise it returns the address of the first byte
  of the buffer.
\<close>

theorem rx_content_empty_or_first_byte:
  assumes "wf_buffer (m_rx_buffer c)"
  shows "(m_data (m_rx_buffer c) = [] \<longrightarrow> rx_content c = Inr (String_literal []))
       \<and> (m_data (m_rx_buffer c) \<noteq> [] \<longrightarrow> rx_content c = Inr (Vector_storage 0))"
  using buffer_size_eq_0_iff[OF assms] by (simp add: rx_content_def buffer_data_def)

theorem rx_content_empty_or_first_byte_witness:
  "wf_buffer (m_rx_buffer (call_context_ctor 0 False (Some 0) 0 [] [] 5000 False))
   \<and> rx_content (call_context_ctor 0 False (Some 0) 0 [] [] 5000 False) = Inr (String_literal [])
   \<and> wf_buffer (m_rx_buffer ((call_context_ctor 0 False (Some 0) 0 [] [] 5000 False)\<lparr> m_rx_buffer := \<lparr> m_data = [111, 107] \<rparr> \<rparr>))
   \<and> rx_content ((call_context_ctor 0 False (Some 0) 0 [] [] 5000 False)\<lparr> m_rx_buffer := \<lparr> m_data = [111, 107] \<rparr> \<rparr>) = Inr (Vector_storage 0)"
proof -
  let ?c = "call_context_ctor 0 False (Some 0) 0 [] [] 5000 False"
  let ?d = "?c\<lparr> m_rx_buffer := \<lparr> m_data = [111, 107] \<rparr> \<rparr>"
  have h: "wf_buffer (m_rx_buffer ?c)" "wf_buffer (m_rx_buffer ?d)"
    by (simp_all add: wf_buffer_def vector_max_size_def call_context_ctor_def buffer_ctor_def)
  show ?thesis
    using h rx_content_empty_or_first_byte[OF h(1)] rx_content_empty_or_first_byte[OF h(2)]
    by (simp add: call_context_ctor_def buffer_ctor_def)
qed

subsection \<open>The transfer rate\<close>

lemma trunc_div_nonneg: "0 \<le> a \<Longrightarrow> 0 < b \<Longrightarrow> trunc_div a b = a div b"
  by (cases "a = 0") (simp_all add: trunc_div_def)

lemma abs_div_abs_bounds: "0 \<le> \<bar>a::int\<bar> div \<bar>b\<bar> \<and> \<bar>a\<bar> div \<bar>b\<bar> \<le> \<bar>a\<bar>"
proof (cases "b = 0")
  case True
  then show ?thesis by simp
next
  case False
  then have "1 \<le> \<bar>b\<bar>" by simp
  then have "\<bar>a\<bar> div \<bar>b\<bar> \<le> \<bar>a\<bar> div 1"
    by (intro zdiv_mono2) simp_all
  moreover have "0 \<le> \<bar>a\<bar> div \<bar>b\<bar>"
    using False by (simp add: pos_imp_zdiv_nonneg_iff)
  ultimately show ?thesis by simp
qed

lemma trunc_div_abs_le: "\<bar>trunc_div a b\<bar> \<le> \<bar>a\<bar>"
proof -
  have "\<bar>trunc_div a b\<bar> = \<bar>sgn a\<bar> * \<bar>sgn b\<bar> * (\<bar>a\<bar> div \<bar>b\<bar>)"
    using abs_div_abs_bounds[of a b] by (simp add: trunc_div_def abs_mult)
  also have "\<dots> \<le> \<bar>a\<bar> div \<bar>b\<bar>"
    using abs_div_abs_bounds[of a b] by (cases "a = 0"; cases "b = 0") (simp_all add: abs_sgn_eq)
  also have "\<dots> \<le> \<bar>a\<bar>"
    using abs_div_abs_bounds[of a b] by simp
  finally show ?thesis .
qed

lemma word_of_int_eq_0_small:
  assumes "\<bar>x\<bar> < 2 ^ 64"
  shows "(word_of_int x :: size_t) = 0 \<longleftrightarrow> x = 0"
proof
  assume "(word_of_int x :: size_t) = 0"
  then have "2 ^ 64 dvd x" by (simp add: word_of_int_eq_0_iff)
  then have "2 ^ 64 dvd \<bar>x\<bar>" by simp
  then show "x = 0" using assms zdvd_not_zless[of "\<bar>x\<bar>" "2 ^ 64"] by auto
qed simp

lemma unat_word_of_int_small:
  assumes "0 \<le> x" "x < 2 ^ 64"
  shows "unat (word_of_int x :: size_t) = nat x"
  using assms by (simp add: unsigned_of_int take_bit_int_eq_self)

lemma to_int_small:
  assumes "unat w < 2 ^ 31"
  shows "to_int w = int (unat w)"
proof -
  have "int (unat w) < int (2 ^ 31)" using assms by (simp only: of_nat_less_iff)
  then have u: "uint w < 2 ^ 31" by (simp only: uint_nat of_nat_power of_nat_numeral)
  have "uint (ucast w :: 32 word) = take_bit 32 (uint w)"
    by (simp add: unsigned_ucast_eq)
  also have "\<dots> = uint w"
    using u by (intro take_bit_int_eq_self) simp_all
  finally have "sint (ucast w :: 32 word) = signed_take_bit 31 (uint w)"
    by (simp add: sint_uint)
  also have "\<dots> = uint w"
  proof (rule signed_take_bit_int_eq_self)
    have "- (2 ^ 31) \<le> (0::int)" by simp
    also have "0 \<le> uint w" by simp
    finally show "- (2 ^ 31) \<le> uint w" .
    show "uint w < 2 ^ 31" by (rule u)
  qed
  finally show ?thesis by (simp add: to_int_def)
qed


lemma int64_wrap_bounds: "- (2 ^ 63) \<le> int64_wrap x \<and> int64_wrap x < 2 ^ 63"
  by (simp add: int64_wrap_def)

lemma milliseconds_bound:
  assumes "wf_context c"
  shows "\<bar>milliseconds c\<bar> < 2 ^ 64"
proof -
  have "\<bar>int64_wrap (m_end_ts c - m_start_ts c)\<bar> < 2 ^ 64"
    using int64_wrap_bounds[of "m_end_ts c - m_start_ts c"] by (simp add: abs_less_iff)
  then show ?thesis
    using trunc_div_abs_le[of "int64_wrap (m_end_ts c - m_start_ts c)" 1000000]
    by (simp add: milliseconds_def)
qed

text \<open>
  Claim C9, as stated: whenever the elapsed milliseconds are not zero,
  \<open>rx_kb_per_sec()\<close> is the received byte count divided by them. With 10 bytes received
  by a context attached 2 ms after the epoch and not yet retired, the elapsed value is
  \<open>-2\<close> and the quotient \<open>-5\<close>, but the division is unsigned and gives 0. With
  \<open>2 ^ 32\<close> bytes received in 1 ms the quotient \<open>2 ^ 32\<close> does not fit the
  \<open>int\<close> result, which is 0.
\<close>

theorem rx_kb_per_sec_quotient_counterexample:
  "milliseconds ((attach_context 2000000 1
        (call_context_ctor 0 False (Some 0) 0 [] [] 5000 False))
       \<lparr> m_rx_buffer := \<lparr> m_data = replicate 10 0 \<rparr> \<rparr>) = - 2
   \<and> rx_kb_per_sec ((attach_context 2000000 1
        (call_context_ctor 0 False (Some 0) 0 [] [] 5000 False))
       \<lparr> m_rx_buffer := \<lparr> m_data = replicate 10 0 \<rparr> \<rparr>) = Inr 0
   \<and> trunc_div 10 (- 2) = - 5
   \<and> milliseconds ((retire_context 1000000 (True, 200) (attach_context 0 1
        (call_context_ctor 0 False (Some 0) 0 [] [] 5000 False)))
       \<lparr> m_rx_buffer := \<lparr> m_data = replicate (2 ^ 32) 0 \<rparr> \<rparr>) = 1
   \<and> rx_kb_per_sec ((retire_context 1000000 (True, 200) (attach_context 0 1
        (call_context_ctor 0 False (Some 0) 0 [] [] 5000 False)))
       \<lparr> m_rx_buffer := \<lparr> m_data = replicate (2 ^ 32) 0 \<rparr> \<rparr>) = Inr 0"
  by (simp add: attach_context_def retire_context_def curl_start_def curl_stop_def
      call_context_ctor_def milliseconds_def int64_wrap_def trunc_div_def rx_kb_per_sec_def
      rx_content_length_def buffer_size_def to_int_def Let_def)

text \<open>
  Claim C9, amended: \<open>rx_kb_per_sec()\<close> never divides by zero; it returns 0 when the
  elapsed milliseconds are zero; when they are positive and the quotient fits an
  \<open>int\<close>, it returns the received byte count divided by them.
\<close>

theorem rx_kb_per_sec_no_division_by_zero:
  assumes "wf_context c"
  shows "rx_kb_per_sec c \<noteq> Inl Division_by_zero
       \<and> (milliseconds c = 0 \<longrightarrow> rx_kb_per_sec c = Inr 0)
       \<and> (0 < milliseconds c
            \<and> int (length (m_data (m_rx_buffer c))) div milliseconds c < 2 ^ 31 \<longrightarrow>
          rx_kb_per_sec c = Inr (int (length (m_data (m_rx_buffer c))) div milliseconds c))"
proof (intro conjI impI)
  have z: "(word_of_int (milliseconds c) :: size_t) = 0 \<longleftrightarrow> milliseconds c = 0"
    using milliseconds_bound[OF assms] by (rule word_of_int_eq_0_small)
  show "rx_kb_per_sec c \<noteq> Inl Division_by_zero"
    using z by (simp add: rx_kb_per_sec_def Let_def)
  show "rx_kb_per_sec c = Inr 0" if "milliseconds c = 0"
    using that by (simp add: rx_kb_per_sec_def to_int_def)
  show "rx_kb_per_sec c = Inr (int (length (m_data (m_rx_buffer c))) div milliseconds c)"
    if h: "0 < milliseconds c \<and> int (length (m_data (m_rx_buffer c))) div milliseconds c < 2 ^ 31"
  proof -
    let ?ms = "milliseconds c" and ?n = "length (m_data (m_rx_buffer c))"
    let ?q = "rx_content_length c div (word_of_int ?ms :: size_t)"
    have wf: "wf_buffer (m_rx_buffer c)" using assms by (simp add: wf_context_def)
    have ms: "unat (word_of_int ?ms :: size_t) = nat ?ms"
      using h milliseconds_bound[OF assms] by (intro unat_word_of_int_small) simp_all
    have q: "unat ?q = ?n div nat ?ms"
      by (simp add: unat_div ms rx_content_length_def unat_buffer_size[OF wf])
    have qi: "int (?n div nat ?ms) = int ?n div ?ms"
      using h by (simp add: zdiv_int)
    have "int (unat ?q) < 2 ^ 31" using h q qi by simp
    then have "int (unat ?q) < int (2 ^ 31)" by (simp only: of_nat_power of_nat_numeral)
    then have small: "unat ?q < 2 ^ 31" by (simp only: of_nat_less_iff)
    have "to_int ?q = int ?n div ?ms"
      using to_int_small[OF small] q qi by simp
    then show ?thesis
      using h z by (simp add: rx_kb_per_sec_def Let_def)
  qed
qed

theorem rx_kb_per_sec_no_division_by_zero_witness:
  "wf_context ((retire_context 4000000 (True, 200) (attach_context 0 1
        (call_context_ctor 0 False (Some 0) 0 [] [] 5000 False)))
       \<lparr> m_rx_buffer := \<lparr> m_data = replicate 4096 0 \<rparr> \<rparr>)
   \<and> milliseconds ((retire_context 4000000 (True, 200) (attach_context 0 1
        (call_context_ctor 0 False (Some 0) 0 [] [] 5000 False)))
       \<lparr> m_rx_buffer := \<lparr> m_data = replicate 4096 0 \<rparr> \<rparr>) = 4
   \<and> rx_kb_per_sec ((retire_context 4000000 (True, 200) (attach_context 0 1
        (call_context_ctor 0 False (Some 0) 0 [] [] 5000 False)))
       \<lparr> m_rx_buffer := \<lparr> m_data = replicate 4096 0 \<rparr> \<rparr>) = Inr 1024
   \<and> wf_context (call_context_ctor 0 False (Some 0) 0 [] [] 5000 False)
   \<and> milliseconds (call_context_ctor 0 False (Some 0) 0 [] [] 5000 False) = 0
   \<and> rx_kb_per_sec (call_context_ctor 0 False (Some 0) 0 [] [] 5000 False) = Inr 0"
proof -
  let ?fresh = "call_context_ctor 0 False (Some 0) 0 [] [] 5000 False"
  let ?c = "(retire_context 4000000 (True, 200) (attach_context 0 1 ?fresh))
       \<lparr> m_rx_buffer := \<lparr> m_data = replicate 4096 0 \<rparr> \<rparr>"
  have wf: "wf_context ?c" "wf_context ?fresh"
    by (simp_all add: wf_context_def wf_buffer_def vector_max_size_def int64_range_def
        retire_context_def attach_context_def curl_start_def curl_stop_def
        call_context_ctor_def buffer_ctor_def)
  have ms: "milliseconds ?c = 4" "milliseconds ?fresh = 0"
    by (simp_all add: milliseconds_def int64_wrap_def trunc_div_def retire_context_def
        attach_context_def curl_start_def curl_stop_def call_context_ctor_def)
  show ?thesis
    using wf ms rx_kb_per_sec_no_division_by_zero[OF wf(1)]
      rx_kb_per_sec_no_division_by_zero[OF wf(2)]
    by simp
qed

section \<open>Properties of the engine and of the context counter\<close>

lemma events_of_append [simp]: "events_of r (xs @ ys) = events_of r xs @ events_of r ys"
  by (simp add: events_of_def)

lemma events_of_simps [simp]:
  "events_of r [] = []"
  "events_of r (Attach q # tr) = (if q = r then Attach q # events_of r tr else events_of r tr)"
  "events_of r (Detach q # tr) = (if q = r then Detach q # events_of r tr else events_of r tr)"
  "events_of r (Continuation q # tr) =
     (if q = r then Continuation q # events_of r tr else events_of r tr)"
  "events_of r (Cancel_timer # tr) = events_of r tr"
  "events_of r (Cancel_keepalive_timer # tr) = events_of r tr"
  "events_of r (Close_socket d # tr) = events_of r tr"
  by (auto simp: events_of_def)

lemma events_of_close_sockets [simp]:
  "events_of r (map (\<lambda>(d, i). Close_socket d) xs) = []"
  by (induction xs) auto

lemma lock_run_append:
  "lock_run held (xs @ ys) =
     (case lock_run held xs of None \<Rightarrow> None | Some held' \<Rightarrow> lock_run held' ys)"
proof (induction xs arbitrary: held)
  case Nil
  then show ?case by simp
next
  case (Cons x xs)
  then show ?case by (cases x) simp_all
qed

lemma finite_dom_heap: "inv_fresh s \<Longrightarrow> finite (dom (m_heap s))"
proof -
  assume "inv_fresh s"
  then have "dom (m_heap s) \<subseteq> {..< m_next_ref s}"
    by (fastforce simp: inv_fresh_def not_le[symmetric])
  then show ?thesis by (rule finite_subset) simp
qed

lemma ctor_statics_Inr:
  assumes "call_context_ctor_statics s = Inr s1"
  shows "\<not> s_spinlock s"
    and "s1 = s\<lparr> s_spinlock := False, s_context_count := s_context_count s + 1,
                m_lock_trace := m_lock_trace s @ [Lock_acquire, Counter_access, Lock_release] \<rparr>"
  using assms
  by (auto simp: call_context_ctor_statics_def scoped_lock_ctor_def scoped_lock_dtor_def
      split: if_splits)


lemma lock_trace_block:
  assumes "lock_run False tr = Some False"
  shows "lock_run False (tr @ [Lock_acquire, Counter_access, Lock_release]) = Some False"
    and "lock_run False (tr @ [Lock_acquire, Counter_access] @ [Lock_release]) = Some False"
  using assms by (simp_all add: lock_run_append)


lemma engine_invD:
  assumes "engine_inv s"
  shows "inv_fresh s" "inv_life s" "inv_multi s" "inv_finished s" "inv_statics s"
  using assms by (simp_all add: engine_inv_def)

lemma inv_fresh_same:
  assumes "inv_fresh s" "m_heap s' = m_heap s" "m_next_ref s' = m_next_ref s"
    "\<And>r. events_of r (m_trace s') = events_of r (m_trace s)"
  shows "inv_fresh s'"
  using assms by (simp add: inv_fresh_def)

lemma inv_life_same:
  assumes "inv_life s" "m_heap s' = m_heap s"
    "\<And>r. events_of r (m_trace s') = events_of r (m_trace s)"
  shows "inv_life s'"
  using assms by (simp add: inv_life_def)

lemma inv_multi_same:
  assumes "inv_multi s" "m_heap s' = m_heap s" "m_multi s' = m_multi s"
  shows "inv_multi s'"
  using assms by (simp add: inv_multi_def)

lemma inv_finished_same:
  assumes "inv_finished s" "m_multi s' = m_multi s" "m_finished s' = m_finished s"
  shows "inv_finished s'"
  using assms by (simp add: inv_finished_def)

lemma inv_statics_same:
  assumes "inv_statics s" "s_context_count s' = s_context_count s"
    "s_spinlock s' = s_spinlock s" "m_lock_trace s' = m_lock_trace s"
    "dom (m_heap s') = dom (m_heap s)"
  shows "inv_statics s'"
  using assms by (simp add: inv_statics_def)

lemma engine_inv_same:
  assumes "engine_inv s" "m_heap s' = m_heap s" "m_next_ref s' = m_next_ref s"
    "\<And>r. events_of r (m_trace s') = events_of r (m_trace s)"
    "m_multi s' = m_multi s" "m_finished s' = m_finished s"
    "s_context_count s' = s_context_count s" "s_spinlock s' = s_spinlock s"
    "m_lock_trace s' = m_lock_trace s"
  shows "engine_inv s'"
proof -
  note d = engine_invD[OF assms(1)]
  have "inv_fresh s'" using d(1) assms(2,3,4) by (rule inv_fresh_same)
  moreover have "inv_life s'" using d(2) assms(2,4) by (rule inv_life_same)
  moreover have "inv_multi s'" using d(3) assms(2,5) by (rule inv_multi_same)
  moreover have "inv_finished s'" using d(4) assms(5,6) by (rule inv_finished_same)
  moreover have "inv_statics s'" using d(5) assms(7,8,9) by (rule inv_statics_same) (simp add: assms(2))
  ultimately show ?thesis by (simp add: engine_inv_def)
qed

lemma dom_upd_same: "m r = Some c \<Longrightarrow> dom (m(r \<mapsto> c')) = dom m"
  by auto

lemma inv_ctor: "engine_inv http_client_ctor"
  by (simp add: engine_inv_def inv_fresh_def inv_life_def inv_multi_def inv_finished_def
      inv_statics_def http_client_ctor_def)

lemma lifecycle_ctor [simp]:
  "lifecycle_events r (call_context_ctor u i e m uri hs t v) = []"
  "\<not> m_curl_shared (call_context_ctor u i e m uri hs t v)"
  "\<not> m_curl_done (call_context_ctor u i e m uri hs t v)"
  by (simp_all add: lifecycle_events_def call_context_ctor_def)

lemma create_http_request_Inr:
  assumes "create_http_request u i m uri hs t v s = Inr s'"
  shows "\<not> s_spinlock s"
    and "s' = s\<lparr> s_spinlock := False, s_context_count := s_context_count s + 1,
                m_lock_trace := m_lock_trace s @ [Lock_acquire, Counter_access, Lock_release],
                m_heap := (m_heap s)(m_next_ref s \<mapsto>
                   call_context_ctor u i (Some (m_next_ref s)) m uri hs t v),
                m_next_ref := Suc (m_next_ref s) \<rparr>"
proof -
  from assms obtain s1 where s1: "call_context_ctor_statics s = Inr s1"
    by (auto simp: create_http_request_def split: sum.splits)
  show "\<not> s_spinlock s" using ctor_statics_Inr(1)[OF s1] .
  show "s' = s\<lparr> s_spinlock := False, s_context_count := s_context_count s + 1,
                m_lock_trace := m_lock_trace s @ [Lock_acquire, Counter_access, Lock_release],
                m_heap := (m_heap s)(m_next_ref s \<mapsto>
                   call_context_ctor u i (Some (m_next_ref s)) m uri hs t v),
                m_next_ref := Suc (m_next_ref s) \<rparr>"
    using assms s1 ctor_statics_Inr(2)[OF s1] by (simp add: create_http_request_def)
qed

lemma inv_create:
  assumes "engine_inv s" "create_http_request u i m uri hs t v s = Inr s'"
  shows "engine_inv s'"
proof -
  note s' = create_http_request_Inr(2)[OF assms(2)]
  have fresh: "inv_fresh s" and life: "inv_life s" and multi: "inv_multi s"
    and fin: "inv_finished s" and st: "inv_statics s"
    using assms(1) by (simp_all add: engine_inv_def)
  have none: "m_heap s (m_next_ref s) = None" "events_of (m_next_ref s) (m_trace s) = []"
    using fresh by (simp_all add: inv_fresh_def)
  have 1: "inv_fresh s'"
    using fresh by (simp add: inv_fresh_def s')
  have 2: "inv_life s'"
    using life none unfolding inv_life_def s' by simp
  have 3: "inv_multi s'"
    using multi none unfolding inv_multi_def s' by auto
  have 4: "inv_finished s'"
    using fin by (simp add: inv_finished_def s')
  have "card (dom ((m_heap s)(m_next_ref s \<mapsto> c))) = Suc (card (dom (m_heap s)))" for c
    using finite_dom_heap[OF fresh] none(1) by (simp add: domIff)
  then have 5: "inv_statics s'"
    using st by (simp add: inv_statics_def s' lock_run_append)
  show ?thesis using 1 2 3 4 5 by (simp add: engine_inv_def)
qed

lemma call_context_dtor_Inr:
  assumes "call_context_dtor r s = Inr s'"
  obtains c where "m_heap s r = Some c" "\<not> m_curl_shared c" "\<not> s_spinlock s"
    "s' = s\<lparr> s_spinlock := False, s_context_count := s_context_count s - 1,
              m_lock_trace := m_lock_trace s @ [Lock_acquire, Counter_access, Lock_release],
              m_heap := (m_heap s)(r := None) \<rparr>"
  using assms
  by (auto simp: call_context_dtor_def scoped_lock_ctor_def scoped_lock_dtor_def
      split: option.splits if_splits)

lemma inv_dtor:
  assumes "engine_inv s" "call_context_dtor r s = Inr s'"
  shows "engine_inv s'"
proof -
  from assms(2) obtain c where c: "m_heap s r = Some c" "\<not> m_curl_shared c"
    and s': "s' = s\<lparr> s_spinlock := False, s_context_count := s_context_count s - 1,
              m_lock_trace := m_lock_trace s @ [Lock_acquire, Counter_access, Lock_release],
              m_heap := (m_heap s)(r := None) \<rparr>"
    by (rule call_context_dtor_Inr)
  have fresh: "inv_fresh s" and life: "inv_life s" and multi: "inv_multi s"
    and fin: "inv_finished s" and st: "inv_statics s"
    using assms(1) by (simp_all add: engine_inv_def)
  have ev: "events_of r (m_trace s) = [] \<or>
            events_of r (m_trace s) = [Attach r, Detach r, Continuation r]"
    using life c by (auto simp: inv_life_def lifecycle_events_def)
  have 1: "inv_fresh s'"
    using fresh by (simp add: inv_fresh_def s')
  have 2: "inv_life s'"
    using life ev unfolding inv_life_def s' by simp
  have 3: "inv_multi s'"
    using multi c unfolding inv_multi_def s' by auto
  have 4: "inv_finished s'"
    using fin by (simp add: inv_finished_def s')
  have r: "r \<in> dom (m_heap s)" using c by auto
  then have pos: "1 \<le> card (dom (m_heap s))"
    using finite_dom_heap[OF fresh] by (metis One_nat_def Suc_leI card_gt_0_iff empty_iff)
  have "card (dom ((m_heap s)(r := None))) = card (dom (m_heap s)) - 1"
    using finite_dom_heap[OF fresh] r by simp
  then have "(of_nat (card (dom ((m_heap s)(r := None)))) :: size_t)
             = of_nat (card (dom (m_heap s))) - 1"
    using pos by (simp add: of_nat_diff)
  then have 5: "inv_statics s'"
    using st by (simp add: inv_statics_def s' lock_run_append)
  show ?thesis using 1 2 3 4 5 by (simp add: engine_inv_def)
qed

lemma connection_count_Inr:
  assumes "connection_count s = Inr (n, s')"
  shows "\<not> s_spinlock s" "n = s_context_count s"
    "s' = s\<lparr> s_spinlock := False,
              m_lock_trace := m_lock_trace s @ [Lock_acquire, Counter_access, Lock_release] \<rparr>"
  using assms
  by (auto simp: connection_count_def scoped_lock_ctor_def scoped_lock_dtor_def
      split: if_splits)

lemma inv_connection_count:
  assumes "engine_inv s" "connection_count s = Inr (n, s')"
  shows "engine_inv s'"
proof -
  note s' = connection_count_Inr(3)[OF assms(2)]
  note d = engine_invD[OF assms(1)]
  have "inv_fresh s'" using d(1) by (rule inv_fresh_same) (simp_all add: s')
  moreover have "inv_life s'" using d(2) by (rule inv_life_same) (simp_all add: s')
  moreover have "inv_multi s'" using d(3) by (rule inv_multi_same) (simp_all add: s')
  moreover have "inv_finished s'" using d(4) by (rule inv_finished_same) (simp_all add: s')
  moreover have "inv_statics s'"
    using d(5) by (simp add: inv_statics_def s' lock_run_append)
  ultimately show ?thesis by (simp add: engine_inv_def)
qed

lemma inv_perform_async:
  assumes "engine_inv s" "perform_async now r cb s = Inr s'"
  shows "engine_inv s'"
proof -
  from assms(2) obtain c where c: "m_heap s r = Some c" "\<not> m_curl_shared c" "\<not> m_curl_done c"
    and s': "s' = s\<lparr> m_heap := (m_heap s)(r \<mapsto> attach_context now cb c),
                       m_multi := r # m_multi s,
                       m_trace := m_trace s @ [Attach r] \<rparr>"
    by (auto simp: perform_async_def split: if_splits option.splits)
  have fresh: "inv_fresh s" and life: "inv_life s" and multi: "inv_multi s"
    and fin: "inv_finished s" and st: "inv_statics s"
    using assms(1) by (simp_all add: engine_inv_def)
  have a: "m_curl_shared (attach_context now cb c)" "\<not> m_curl_done (attach_context now cb c)"
    "lifecycle_events r (attach_context now cb c) = [Attach r]"
    using c by (simp_all add: attach_context_def curl_start_def lifecycle_events_def)
  have lt: "r < m_next_ref s"
    using fresh c by (fastforce simp: inv_fresh_def not_le[symmetric])
  have 1: "inv_fresh s'"
    using fresh c lt by (auto simp: inv_fresh_def s')
  have 2: "inv_life s'"
    using life c a unfolding inv_life_def s' by (simp add: lifecycle_events_def)
  have 3: "inv_multi s'"
    using multi a c unfolding inv_multi_def s' by auto
  have 4: "inv_finished s'"
    using fin by (auto simp: inv_finished_def s')
  have "r \<in> dom (m_heap s)" using c(1) by (simp add: domIff)
  then have 5: "inv_statics s'"
    using st by (intro inv_statics_same[OF st]) (simp_all add: s' insert_absorb)
  show ?thesis using 1 2 3 4 5 by (simp add: engine_inv_def)
qed

lemma inv_transport_done:
  assumes "engine_inv s"
  shows "engine_inv (transport_done r oc s)"
proof (cases "r \<in> set (m_multi s) \<and> r \<notin> fst ` set (m_finished s)")
  case False
  then have "transport_done r oc s = s" by (auto simp: transport_done_def)
  then show ?thesis using assms by simp
next
  case True
  let ?s' = "s\<lparr> m_finished := m_finished s @ [(r, oc)] \<rparr>"
  note d = engine_invD[OF assms]
  have "inv_fresh ?s'" using d(1) by (rule inv_fresh_same) simp_all
  moreover have "inv_life ?s'" using d(2) by (rule inv_life_same) simp_all
  moreover have "inv_multi ?s'" using d(3) by (rule inv_multi_same) simp_all
  moreover have "inv_statics ?s'" using d(5) by (rule inv_statics_same) simp_all
  moreover have "inv_finished ?s'"
    using d(4) True by (auto simp: inv_finished_def)
  moreover have "transport_done r oc s = ?s'"
    using True by (simp add: transport_done_def)
  ultimately show ?thesis by (simp add: engine_inv_def)
qed

lemma inv_opensocket:
  assumes "engine_inv s"
  shows "engine_inv (opensocket_cb d s)"
  using assms by (rule engine_inv_same) (simp_all add: opensocket_cb_def)

lemma inv_multi_timer:
  assumes "engine_inv s"
  shows "engine_inv (multi_timer_cb t s)"
  using assms by (rule engine_inv_same) (simp_all add: multi_timer_cb_def)


lemma retire_handle_Inr:
  assumes "retire_handle now r oc s = Inr s'"
  obtains c where "m_heap s r = Some c" "m_curl_shared c"
    "s' = s\<lparr> m_heap := (m_heap s)(r \<mapsto> retire_context now oc c),
              m_multi := removeAll r (m_multi s),
              m_trace := m_trace s @ [Detach r, Continuation r] \<rparr>"
  using assms by (auto simp: retire_handle_def split: if_splits option.splits)

lemma retire_handle_attached:
  assumes "m_heap s r = Some c" "m_curl_shared c"
  shows "retire_handle now r oc s =
     Inr (s\<lparr> m_heap := (m_heap s)(r \<mapsto> retire_context now oc c),
              m_multi := removeAll r (m_multi s),
              m_trace := m_trace s @ [Detach r, Continuation r] \<rparr>)"
  using assms by (simp add: retire_handle_def)

lemma retire_context_flags [simp]:
  "m_curl_done (retire_context now oc c)"
  "\<not> m_curl_shared (retire_context now oc c)"
  "lifecycle_events r (retire_context now oc c) = [Attach r, Detach r, Continuation r]"
  by (simp_all add: retire_context_def curl_stop_def lifecycle_events_def)

lemma inv_retire_handle:
  assumes "engine_inv s" "r \<notin> fst ` set (m_finished s)" "retire_handle now r oc s = Inr s'"
  shows "engine_inv s'"
proof -
  from assms(3) obtain c where c: "m_heap s r = Some c" "m_curl_shared c"
    and s': "s' = s\<lparr> m_heap := (m_heap s)(r \<mapsto> retire_context now oc c),
              m_multi := removeAll r (m_multi s),
              m_trace := m_trace s @ [Detach r, Continuation r] \<rparr>"
    by (rule retire_handle_Inr)
  note d = engine_invD[OF assms(1)]
  have old: "\<not> m_curl_done c" "events_of r (m_trace s) = [Attach r]"
    using d(2) c by (auto simp: inv_life_def lifecycle_events_def)
  have lt: "r < m_next_ref s"
    using d(1) c by (fastforce simp: inv_fresh_def not_le[symmetric])
  have 1: "inv_fresh s'"
    using d(1) lt by (auto simp: inv_fresh_def s')
  have 2: "inv_life s'"
    using d(2) c old unfolding inv_life_def s' by simp
  have 3: "inv_multi s'"
    using d(3) c unfolding inv_multi_def s' by (auto simp: distinct_removeAll)
  have 4: "inv_finished s'"
    using d(4) assms(2) by (auto simp: inv_finished_def s')
  have "r \<in> dom (m_heap s)" using c(1) by (simp add: domIff)
  then have 5: "inv_statics s'"
    by (intro inv_statics_same[OF d(5)]) (simp_all add: s' insert_absorb)
  show ?thesis using 1 2 3 4 5 by (simp add: engine_inv_def)
qed

lemma retire_handle_fields:
  assumes "retire_handle now r oc s = Inr s'"
  shows "m_finished s' = m_finished s" "m_timer s' = m_timer s"
    "m_keepalive_timer s' = m_keepalive_timer s" "m_socket_map s' = m_socket_map s"
    "m_closed s' = m_closed s" "m_multi s' = removeAll r (m_multi s)"
    "s_context_count s' = s_context_count s" "s_spinlock s' = s_spinlock s"
    "m_lock_trace s' = m_lock_trace s"
  using assms by (auto elim!: retire_handle_Inr)

lemma check_completed_Nil: "m_finished s = [] \<Longrightarrow> check_completed now s = Inr s"
  by (simp add: check_completed.simps next_finished_def)

lemma check_completed_Cons:
  "m_finished s = (r, oc) # rest \<Longrightarrow>
   check_completed now s =
     (case retire_handle now r oc (s\<lparr> m_finished := rest \<rparr>) of
        Inl e \<Rightarrow> Inl e
      | Inr s'' \<Rightarrow> check_completed now s'')"
  by (subst check_completed.simps) (simp add: next_finished_def)

lemma check_completed_finished:
  "check_completed now s = Inr s' \<Longrightarrow> m_finished s' = []"
proof (induction "m_finished s" arbitrary: s)
  case Nil
  then show ?case using check_completed_Nil[of s now] by simp
next
  case (Cons x rest)
  obtain r oc where x: "x = (r, oc)" by (cases x)
  have fin: "m_finished s = (r, oc) # rest" using Cons.hyps(2) x by simp
  from Cons.prems obtain s'' where
    r: "retire_handle now r oc (s\<lparr> m_finished := rest \<rparr>) = Inr s''"
    and cc: "check_completed now s'' = Inr s'"
    by (auto simp: check_completed_Cons[OF fin] split: sum.splits)
  have "rest = m_finished s''" using retire_handle_fields(1)[OF r] by simp
  then show ?case using Cons.hyps(1) cc by blast
qed

lemma inv_pop_finished:
  assumes "engine_inv s" "m_finished s = (r, oc) # rest"
  shows "engine_inv (s\<lparr> m_finished := rest \<rparr>)" "r \<notin> fst ` set rest" "r \<in> set (m_multi s)"
proof -
  note d = engine_invD[OF assms(1)]
  let ?s0 = "s\<lparr> m_finished := rest \<rparr>"
  have "inv_fresh ?s0" using d(1) by (rule inv_fresh_same) simp_all
  moreover have "inv_life ?s0" using d(2) by (rule inv_life_same) simp_all
  moreover have "inv_multi ?s0" using d(3) by (rule inv_multi_same) simp_all
  moreover have "inv_statics ?s0" using d(5) by (rule inv_statics_same) simp_all
  moreover have "inv_finished ?s0"
    using d(4) assms(2) by (auto simp: inv_finished_def)
  ultimately show "engine_inv ?s0" by (simp add: engine_inv_def)
  show "r \<notin> fst ` set rest" "r \<in> set (m_multi s)"
    using d(4) assms(2) by (auto simp: inv_finished_def)
qed

lemma check_completed_inv:
  "engine_inv s \<Longrightarrow> \<exists>s'. check_completed now s = Inr s' \<and> engine_inv s'"
proof (induction "m_finished s" arbitrary: s)
  case Nil
  then show ?case using check_completed_Nil[of s now] by simp
next
  case (Cons x rest)
  obtain r oc where x: "x = (r, oc)" by (cases x)
  have fin: "m_finished s = (r, oc) # rest" using Cons.hyps(2) x by simp
  let ?s0 = "s\<lparr> m_finished := rest \<rparr>"
  note p = inv_pop_finished[OF Cons.prems fin]
  have notin: "r \<notin> fst ` set (m_finished ?s0)" using p(2) by simp
  obtain c where c: "m_heap ?s0 r = Some c" "m_curl_shared c"
    using p(3) engine_invD(3)[OF Cons.prems] by (auto simp: inv_multi_def)
  then obtain s'' where r: "retire_handle now r oc ?s0 = Inr s''"
    using retire_handle_attached by blast
  have inv'': "engine_inv s''"
    using p(1) notin r by (rule inv_retire_handle)
  have "rest = m_finished s''" using retire_handle_fields(1)[OF r] by simp
  then obtain s' where "check_completed now s'' = Inr s'" "engine_inv s'"
    using Cons.hyps(1) inv'' by blast
  then show ?case
    using r by (simp add: check_completed_Cons[OF fin])
qed

lemma force_fail_fields:
  "force_fail now rs s = Inr s' \<Longrightarrow>
     m_finished s' = m_finished s \<and> m_timer s' = m_timer s
   \<and> m_keepalive_timer s' = m_keepalive_timer s \<and> m_socket_map s' = m_socket_map s
   \<and> m_closed s' = m_closed s
   \<and> m_multi s' = filter (\<lambda>q. q \<notin> set rs) (m_multi s)"
proof (induction rs arbitrary: s)
  case Nil
  then show ?case by simp
next
  case (Cons r rs)
  from Cons.prems obtain s1 where
    r: "retire_handle now r (False, 0) s = Inr s1" and f: "force_fail now rs s1 = Inr s'"
    by (auto split: sum.splits)
  have "filter (\<lambda>q. q \<notin> set rs) (removeAll r xs)
        = filter (\<lambda>q. q \<notin> set (r # rs)) xs" for xs
    by (induction xs) auto
  then show ?case
    using Cons.IH[OF f] retire_handle_fields[OF r] by simp
qed

lemma force_fail_inv:
  assumes "engine_inv s" "m_finished s = []" "set rs \<subseteq> set (m_multi s)" "distinct rs"
  shows "\<exists>s'. force_fail now rs s = Inr s' \<and> engine_inv s'"
  using assms
proof (induction rs arbitrary: s)
  case Nil
  then show ?case by simp
next
  case (Cons r rs)
  have "r \<in> set (m_multi s)" using Cons.prems(3) by simp
  then obtain c where c: "m_heap s r = Some c" "m_curl_shared c"
    using engine_invD(3)[OF Cons.prems(1)] by (auto simp: inv_multi_def)
  then obtain s1 where r: "retire_handle now r (False, 0) s = Inr s1"
    using retire_handle_attached by blast
  have inv1: "engine_inv s1"
    using Cons.prems(1) _ r by (rule inv_retire_handle) (simp add: Cons.prems(2))
  have "m_finished s1 = []" "set rs \<subseteq> set (m_multi s1)" "distinct rs"
    using retire_handle_fields[OF r] Cons.prems(2,3,4) by auto
  then obtain s' where "force_fail now rs s1 = Inr s'" "engine_inv s'"
    using Cons.IH[OF inv1] by blast
  then show ?case using r by simp
qed

lemma close_Let_drain_idem:
  "close Let_drain t1 s = Inr s' \<Longrightarrow> close Let_drain t2 s' = Inr s'"
  by (auto simp: close_def Let_def)

lemma close_Force_fail_idem:
  assumes "close Force_fail t1 s = Inr s'"
  shows "close Force_fail t2 s' = Inr s'"
proof -
  let ?s1 = "s\<lparr> m_trace := m_trace s
                    @ (if m_timer s = None then [] else [Cancel_timer])
                    @ (if m_keepalive_timer s then [Cancel_keepalive_timer] else [])
                    @ map (\<lambda>(d, i). Close_socket d) (m_socket_map s),
                  m_timer := None, m_keepalive_timer := False,
                  m_socket_map := [], m_closed := True, m_finished := [] \<rparr>"
  have ff: "force_fail t1 (m_multi s) ?s1 = Inr s'"
    using assms by (simp add: close_def Let_def)
  have f: "m_finished s' = []" "m_timer s' = None" "\<not> m_keepalive_timer s'"
    "m_socket_map s' = []" "m_closed s'" "m_multi s' = []"
    using force_fail_fields[OF ff] by simp_all
  show ?thesis
    using f by (simp add: close_def Let_def)
qed

lemma close_inv:
  assumes "engine_inv s"
  shows "\<exists>s'. close p now s = Inr s' \<and> engine_inv s'"
proof -
  let ?s1 = "s\<lparr> m_trace := m_trace s
                    @ (if m_timer s = None then [] else [Cancel_timer])
                    @ (if m_keepalive_timer s then [Cancel_keepalive_timer] else [])
                    @ map (\<lambda>(d, i). Close_socket d) (m_socket_map s),
                  m_timer := None, m_keepalive_timer := False,
                  m_socket_map := [], m_closed := True \<rparr>"
  have inv1: "engine_inv ?s1"
    using assms by (rule engine_inv_same) simp_all
  show ?thesis
  proof (cases p)
    case Let_drain
    then show ?thesis using inv1 by (simp add: close_def Let_def)
  next
    case Force_fail
    note d = engine_invD[OF inv1]
    let ?s2 = "?s1\<lparr> m_finished := [] \<rparr>"
    have "inv_fresh ?s2" using d(1) by (rule inv_fresh_same) simp_all
    moreover have "inv_life ?s2" using d(2) by (rule inv_life_same) simp_all
    moreover have "inv_multi ?s2" using d(3) by (rule inv_multi_same) simp_all
    moreover have "inv_statics ?s2" using d(5) by (rule inv_statics_same) simp_all
    moreover have "inv_finished ?s2" by (simp add: inv_finished_def)
    ultimately have inv2: "engine_inv ?s2" by (simp add: engine_inv_def)
    have "distinct (m_multi s)"
      using engine_invD(3)[OF assms] by (simp add: inv_multi_def)
    then obtain s' where "force_fail now (m_multi s) ?s2 = Inr s'" "engine_inv s'"
      using force_fail_inv[OF inv2, of "m_multi s" now] by auto
    then show ?thesis using Force_fail by (simp add: close_def Let_def)
  qed
qed

lemma step_inv:
  assumes "engine_inv s" "step x s = Inr s'"
  shows "engine_inv s'"
proof (cases x)
  case (Create u i m uri hs t v)
  then show ?thesis using assms inv_create by auto
next
  case (Destroy r)
  then show ?thesis using assms inv_dtor by auto
next
  case Connection_count
  then obtain n where "connection_count s = Inr (n, s')"
    using assms(2) by (cases "connection_count s") auto
  then show ?thesis using assms(1) by (rule inv_connection_count[rotated])
next
  case (Perform_async now r cb)
  then show ?thesis using assms inv_perform_async by auto
next
  case (Transport_done r oc)
  then show ?thesis using assms inv_transport_done[of s r oc] by simp
next
  case (Check_completed now)
  then show ?thesis using assms check_completed_inv[OF assms(1), of now] by auto
next
  case (Open_socket d)
  then show ?thesis using assms inv_opensocket by auto
next
  case (Multi_timer t)
  then show ?thesis using assms inv_multi_timer by auto
next
  case (Close p now)
  then show ?thesis using assms close_inv[OF assms(1), of p now] by auto
qed

lemma run_inv:
  "engine_inv s \<Longrightarrow> run ops s = Inr s' \<Longrightarrow> engine_inv s'"
proof (induction ops arbitrary: s)
  case Nil
  then show ?case by simp
next
  case (Cons x xs)
  then show ?case by (auto split: sum.splits dest: step_inv)
qed

lemma reachable_inv: "run ops http_client_ctor = Inr s \<Longrightarrow> engine_inv s"
  using run_inv[OF inv_ctor] .


lemma run_append:
  "run (xs @ ys) s = (case run xs s of Inl e \<Rightarrow> Inl e | Inr s' \<Rightarrow> run ys s')"
  by (induction xs arbitrary: s) (auto split: sum.splits)



















text \<open>
  Claim C5: \<open>check_completed\<close> returns only when the sequence of finished handles is
  empty, and a second call right after it changes nothing: no context is retired and no
  continuation is invoked again. In every state the engine can reach it does return.
\<close>

theorem check_completed_exhausts_finished:
  "(\<forall>s'. check_completed t1 s = Inr s' \<longrightarrow>
        m_finished s' = [] \<and> check_completed t2 s' = Inr s')
   \<and> (run ops http_client_ctor = Inr s \<longrightarrow> (\<exists>s'. check_completed t1 s = Inr s'))"
  using check_completed_finished[of t1 s] check_completed_Nil[of _ t2]
    check_completed_inv[of s t1] reachable_inv[of ops s]
  by blast

text \<open>
  Claim C7: \<open>close\<close> is idempotent, under either shutdown policy. A second call
  returns the state the first one left, trace included: no timer is cancelled, no socket
  closed and no continuation invoked a second time. In every state the engine can reach
  it does return.
\<close>

theorem close_idempotent:
  "(\<forall>s'. close p t1 s = Inr s' \<longrightarrow> close p t2 s' = Inr s')
   \<and> (run ops http_client_ctor = Inr s \<longrightarrow> (\<exists>s'. close p t1 s = Inr s'))"
proof -
  have "close p t1 s = Inr s' \<Longrightarrow> close p t2 s' = Inr s'" for s'
    by (cases p) (auto dest: close_Let_drain_idem close_Force_fail_idem)
  then show ?thesis
    using close_inv[of s p t1] reachable_inv[of ops s] by blast
qed




lemmas example_run_defs = example_ops_def example_lifetimes_def http_client_ctor_def
  create_http_request_def call_context_ctor_statics_def scoped_lock_ctor_def
  scoped_lock_dtor_def call_context_dtor_def connection_count_def
  call_context_ctor_def buffer_ctor_def perform_async_def attach_context_def curl_start_def
  transport_done_def opensocket_cb_def multi_timer_cb_def
  check_completed.simps next_finished_def retire_handle_def retire_context_def curl_stop_def

lemma example_run:
  "\<exists>s. run example_ops http_client_ctor = Inr s \<and> m_finished s \<noteq> []
     \<and> (0, (True, 200)) \<in> set (m_finished s) \<and> m_socket_map s \<noteq> [] \<and> m_timer s \<noteq> None
     \<and> (\<exists>c. m_heap s 0 = Some c \<and> m_curl_shared c)
     \<and> events_of 0 (m_trace s) = [Attach 0]"
  by (simp add: example_run_defs)




theorem check_completed_exhausts_finished_witness:
  "\<exists>s. run example_ops http_client_ctor = Inr s \<and> m_finished s \<noteq> []
     \<and> (\<exists>s'. check_completed 9000000 s = Inr s' \<and> m_finished s' = []
            \<and> check_completed 9500000 s' = Inr s')"
proof -
  obtain s where s: "run example_ops http_client_ctor = Inr s" "m_finished s \<noteq> []"
    using example_run by blast
  show ?thesis
    using s check_completed_exhausts_finished[of 9000000 s 9500000 example_ops] by blast
qed

theorem close_idempotent_witness:
  "\<exists>s. run example_ops http_client_ctor = Inr s \<and> m_socket_map s \<noteq> [] \<and> m_timer s \<noteq> None
     \<and> (\<exists>s'. close Force_fail 9000000 s = Inr s' \<and> close Force_fail 9500000 s' = Inr s')
     \<and> (\<exists>s'. close Let_drain 9000000 s = Inr s' \<and> close Let_drain 9500000 s' = Inr s')"
proof -
  obtain s where s: "run example_ops http_client_ctor = Inr s" "m_socket_map s \<noteq> []"
    "m_timer s \<noteq> None"
    using example_run by blast
  show ?thesis
    using s close_idempotent[of Force_fail 9000000 s 9500000 example_ops]
      close_idempotent[of Let_drain 9000000 s 9500000 example_ops] by blast
qed



end
